theory Spec2Isabelle
  imports Main "HOL-Library.Word" "HOL-Library.List_Lexorder"
begin

unbundle bit_operations_syntax

section \<open>Bytes, buffers and strings\<close>

text \<open>
  A \<^verbatim>\<open>Uint8Array\<close> or \<^verbatim>\<open>Buffer\<close> is a list of 8-bit words. A JavaScript string is a
  list of UTF-16 code units (\<open>jsstring\<close>); strings that the code builds from ASCII
  literals and hexadecimal digits only are kept as Isabelle \<open>string\<close>s.
\<close>

type_synonym byte = "8 word"
type_synonym bytes = "byte list"
type_synonym jsstring = "16 word list"

text \<open>The exceptions the modelled functions throw.\<close>

datatype error = Error string | RangeError | TypeError

text \<open>\<^verbatim>\<open>Buffer.from(s, "utf8")\<close> for an ASCII literal, and the same literal as a JS string.\<close>

definition ascii :: "string \<Rightarrow> bytes" where
  "ascii s = map of_char s"

definition js :: "string \<Rightarrow> jsstring" where
  "js s = map of_char s"

text \<open>
  \<^verbatim>\<open>subarray(i, j)\<close> and \<^verbatim>\<open>slice(i, j)\<close> for \<open>0 \<le> i \<le> j\<close>: both clamp to the length of the
  buffer or string, as \<open>take\<close> and \<open>drop\<close> do.
\<close>

definition subarray :: "'a list \<Rightarrow> nat \<Rightarrow> nat \<Rightarrow> 'a list" where
  "subarray xs i j = take (j - i) (drop i xs)"

definition slice :: "'a list \<Rightarrow> nat \<Rightarrow> nat \<Rightarrow> 'a list" where
  "slice xs i j = take (j - i) (drop i xs)"

text \<open>\<^verbatim>\<open>buf.toString("hex")\<close>: two lowercase digits per byte.\<close>

definition hex_digit :: "nat \<Rightarrow> char" where
  "hex_digit n = ''0123456789abcdef'' ! n"

definition hex_byte :: "byte \<Rightarrow> string" where
  "hex_byte b = [hex_digit (unat b div 16), hex_digit (unat b mod 16)]"

definition toHex :: "bytes \<Rightarrow> string" where
  "toHex bs = concat (map hex_byte bs)"

text \<open>Reading lowercase hexadecimal back, to state what a rendered identifier holds.\<close>

definition hex_val :: "char \<Rightarrow> nat option" where
  "hex_val c = map_of (zip ''0123456789abcdef'' [0..<16]) c"

fun fromHex :: "string \<Rightarrow> bytes option" where
  "fromHex [] = Some []"
| "fromHex [c] = None"
| "fromHex (c # d # cs) =
     (case (hex_val c, hex_val d, fromHex cs) of
        (Some h, Some l, Some bs) \<Rightarrow> Some (of_nat (16 * h + l) # bs)
      | _ \<Rightarrow> None)"

section \<open>Artifact identifier (crypto.ts, uuidFromHash32)\<close>

text \<open>The template literal of \<^verbatim>\<open>uuidFromHash32\<close> and \<^verbatim>\<open>uuidFrom16\<close>: 8-4-4-4-12.\<close>

definition dashed :: "string \<Rightarrow> string" where
  "dashed hex = slice hex 0 8 @ ''-'' @ slice hex 8 12 @ ''-'' @ slice hex 12 16 @ ''-''
     @ slice hex 16 20 @ ''-'' @ drop 20 hex"

definition uuidFromHash32 :: "bytes \<Rightarrow> error + string" where
  "uuidFromHash32 hash =
     (if length hash < 16 then Inl (Error ''hash must be at least 16 bytes'')
      else
        let b0 = subarray hash 0 16;
            b1 = b0[6 := (b0 ! 6 AND 0x0f) OR 0x40];
            b2 = b1[8 := (b1 ! 8 AND 0x3f) OR 0x80]
        in Inr (dashed (toHex b2)))"

text \<open>
  RFC 4122, version 4, in the canonical lowercase textual form: 36 characters, dashes at
  positions 8, 13, 18 and 23, hexadecimal digits elsewhere, the version digit \<open>4\<close> at
  position 14 (high nibble of byte 6) and a variant digit 8, 9, a or b at position 19
  (top two bits \<open>10\<close> of byte 8).
\<close>

definition is_hex_char :: "char \<Rightarrow> bool" where
  "is_hex_char c = (c \<in> set ''0123456789abcdef'')"

definition is_uuid_v4 :: "string \<Rightarrow> bool" where
  "is_uuid_v4 s =
     (length s = 36 \<and>
      list_all is_hex_char (slice s 0 8) \<and> s ! 8 = CHR ''-'' \<and>
      list_all is_hex_char (slice s 9 13) \<and> s ! 13 = CHR ''-'' \<and>
      s ! 14 = CHR ''4'' \<and>
      list_all is_hex_char (slice s 15 18) \<and> s ! 18 = CHR ''-'' \<and>
      s ! 19 \<in> set ''89ab'' \<and>
      list_all is_hex_char (slice s 20 23) \<and> s ! 23 = CHR ''-'' \<and>
      list_all is_hex_char (drop 24 s))"

text \<open>The 16 bytes a dashed identifier spells.\<close>

definition uuid_bytes :: "string \<Rightarrow> bytes option" where
  "uuid_bytes s = fromHex (filter (\<lambda>c. c \<noteq> CHR ''-'') s)"

section \<open>Fixed-width little-endian integers (crypto.ts and Buffer)\<close>

text \<open>Sequencing of computations that may throw: the first exception wins.\<close>

definition bindE :: "error + 'a \<Rightarrow> ('a \<Rightarrow> error + 'b) \<Rightarrow> error + 'b" where
  "bindE r f = (case r of Inl e \<Rightarrow> Inl e | Inr v \<Rightarrow> f v)"

text \<open>The \<open>k\<close> low bytes of \<open>n\<close>, least significant first, and the value a byte string
  spells when read least significant byte first.\<close>

fun le_bytes :: "nat \<Rightarrow> nat \<Rightarrow> bytes" where
  "le_bytes 0 n = []"
| "le_bytes (Suc k) n = of_nat (n mod 256) # le_bytes k (n div 256)"

fun le_val :: "bytes \<Rightarrow> nat" where
  "le_val [] = 0"
| "le_val (b # bs) = unat b + 256 * le_val bs"

text \<open>
  \<^verbatim>\<open>Buffer.alloc(8)\<close> followed by \<^verbatim>\<open>writeBigUInt64LE(n)\<close> or \<^verbatim>\<open>writeBigInt64LE(n)\<close>: Node
  throws a RangeError when the bigint is outside the unsigned or signed 64-bit range.
  \<^verbatim>\<open>u32le\<close> first applies \<^verbatim>\<open>n >>> 0\<close>, which reduces an integral number modulo \<open>2^32\<close>,
  so it never throws. Numbers are modelled at integral values.
\<close>

definition u64le :: "int \<Rightarrow> error + bytes" where
  "u64le n = (if 0 \<le> n \<and> n < 2 ^ 64 then Inr (le_bytes 8 (nat n)) else Inl RangeError)"

definition i64le :: "int \<Rightarrow> error + bytes" where
  "i64le n = (if - (2 ^ 63) \<le> n \<and> n < 2 ^ 63 then Inr (le_bytes 8 (nat (n mod 2 ^ 64)))
              else Inl RangeError)"

definition u32le :: "int \<Rightarrow> bytes" where
  "u32le n = le_bytes 4 (nat (n mod 2 ^ 32))"

text \<open>
  The Buffer readers: a RangeError when the \<open>w\<close> bytes from offset \<open>off\<close> do not lie
  within the buffer. \<^verbatim>\<open>readBigInt64LE\<close> reads two's complement.
\<close>

definition readUIntLE :: "nat \<Rightarrow> bytes \<Rightarrow> nat \<Rightarrow> error + int" where
  "readUIntLE w data off =
     (if off + w \<le> length data then Inr (int (le_val (take w (drop off data))))
      else Inl RangeError)"

definition readUInt8 :: "bytes \<Rightarrow> nat \<Rightarrow> error + int" where
  "readUInt8 = readUIntLE 1"

definition readUInt32LE :: "bytes \<Rightarrow> nat \<Rightarrow> error + int" where
  "readUInt32LE = readUIntLE 4"

definition readBigUInt64LE :: "bytes \<Rightarrow> nat \<Rightarrow> error + int" where
  "readBigUInt64LE = readUIntLE 8"

definition readBigInt64LE :: "bytes \<Rightarrow> nat \<Rightarrow> error + int" where
  "readBigInt64LE data off =
     bindE (readUIntLE 8 data off) (\<lambda>v. Inr (if v < 2 ^ 63 then v else v - 2 ^ 64))"

section \<open>Commitment preimage (crypto.ts, buildDS)\<close>

text \<open>
  BLAKE3 is the \<^verbatim>\<open>blake3\<close> package, outside the repository: \<open>buildDS\<close> takes the hash
  function as its first argument. The parameter object of the source is the argument
  list \<open>chainId programId proofHash startSlot endSlot seq\<close>; the bigints are \<open>int\<close>s.
  \<open>enc64\<close> is the local helper of \<open>buildDS\<close>, the same code as \<open>u64le\<close>.
\<close>

record ds_result =
  ds :: bytes
  dsHash :: bytes

definition enc64 :: "int \<Rightarrow> error + bytes" where
  "enc64 n = (if 0 \<le> n \<and> n < 2 ^ 64 then Inr (le_bytes 8 (nat n)) else Inl RangeError)"

definition buildDS ::
  "(bytes \<Rightarrow> bytes) \<Rightarrow> int \<Rightarrow> bytes \<Rightarrow> bytes \<Rightarrow> int \<Rightarrow> int \<Rightarrow> int \<Rightarrow> error + ds_result" where
  "buildDS blake3hash chainId programId proofHash startSlot endSlot seq =
     bindE (enc64 chainId) (\<lambda>c.
     bindE (enc64 startSlot) (\<lambda>s.
     bindE (enc64 endSlot) (\<lambda>e.
     bindE (enc64 seq) (\<lambda>q.
       let d = concat [ascii ''zKSL/anchor/v1'', c, programId, proofHash, s, e, q]
       in Inr \<lparr>ds = d, dsHash = blake3hash d\<rparr>))))"

section \<open>Anchor instruction payload (crypto.ts, encodeAnchorProofArgsBorsh)\<close>

text \<open>
  SHA-256 is \<^verbatim>\<open>node:crypto\<close>, outside the repository: a parameter. \<^verbatim>\<open>sha256_8\<close> is only
  ever called on ASCII literals, whose UTF-8 bytes are their characters.
\<close>

definition sha256_8 :: "(bytes \<Rightarrow> bytes) \<Rightarrow> string \<Rightarrow> bytes" where
  "sha256_8 sha256 s = subarray (sha256 (ascii s)) 0 8"

definition encodeAnchorProofArgsBorsh ::
  "(bytes \<Rightarrow> bytes) \<Rightarrow> bytes \<Rightarrow> bytes \<Rightarrow> bytes \<Rightarrow> bytes \<Rightarrow> bytes \<Rightarrow> int \<Rightarrow>
     bytes \<Rightarrow> bytes \<Rightarrow> bytes \<Rightarrow> bytes \<Rightarrow> bytes \<Rightarrow> bytes" where
  "encodeAnchorProofArgsBorsh sha256 artifactId proofHash32 seqLe startLe endLe artifactLen
       stateRootBefore stateRootAfter aggregatorPubkey timestampLe dsHash32 =
     (let disc = sha256_8 sha256 ''global:anchor_proof'';
          payload = concat [artifactId, proofHash32, seqLe, startLe, endLe, u32le artifactLen,
                            stateRootBefore, stateRootAfter, aggregatorPubkey, timestampLe,
                            dsHash32]
      in disc @ payload)"

section \<open>Account decoders of the indexer (codec.ts)\<close>

text \<open>
  Base58 is the \<^verbatim>\<open>bs58\<close> package, outside the repository: the decoders take
  \<^verbatim>\<open>bs58.encode\<close> as their first argument.
\<close>

definition uuidFrom16 :: "bytes \<Rightarrow> string" where
  "uuidFrom16 b = dashed (toHex b)"

record DecodedProofRecord =
  artifact_id :: string
  start_slot :: int
  end_slot :: int
  proof_hash :: bytes
  artifact_len :: int
  state_root_before :: bytes
  state_root_after :: bytes
  submitted_by :: string
  aggregator_pubkey :: string
  timestamp :: int
  seq :: int
  ds_hash :: bytes

definition decodeProofRecord :: "(bytes \<Rightarrow> string) \<Rightarrow> bytes \<Rightarrow> error + DecodedProofRecord" where
  "decodeProofRecord bs58 data =
     (let off = 8;
          artifactId = subarray data off (off + 16);
          off = off + 16
      in bindE (readBigUInt64LE data off) (\<lambda>start.
      let off = off + 8
      in bindE (readBigUInt64LE data off) (\<lambda>end'.
      let off = off + 8;
          proofHash = subarray data off (off + 32);
          off = off + 32
      in bindE (readUInt32LE data off) (\<lambda>artLen.
      let off = off + 4;
          srb = subarray data off (off + 32);
          off = off + 32;
          sra = subarray data off (off + 32);
          off = off + 32;
          submittedBy = bs58 (subarray data off (off + 32));
          off = off + 32;
          aggregator = bs58 (subarray data off (off + 32));
          off = off + 32
      in bindE (readBigInt64LE data off) (\<lambda>ts.
      let off = off + 8
      in bindE (readBigUInt64LE data off) (\<lambda>seq'.
      let off = off + 8;
          dsHash = subarray data off (off + 32)
      in Inr \<lparr>artifact_id = uuidFrom16 artifactId,
               start_slot = start,
               end_slot = end',
               proof_hash = proofHash,
               artifact_len = artLen,
               state_root_before = srb,
               state_root_after = sra,
               submitted_by = submittedBy,
               aggregator_pubkey = aggregator,
               timestamp = ts,
               seq = seq',
               ds_hash = dsHash\<rparr>))))))"

text \<open>
  \<^verbatim>\<open>Number(n)\<close> of a bigint: the nearest double, ties to the even significand. A double
  holds 53 significant bits, so the value is \<open>n\<close> itself below \<open>2^53\<close> in magnitude;
  above, the \<open>e\<close> bits beyond the 53rd are rounded away. The result is integral and is
  kept as an integer.
\<close>

function bit_length :: "nat \<Rightarrow> nat" where
  "bit_length n = (if n = 0 then 0 else Suc (bit_length (n div 2)))"
  by pat_completeness auto
termination
  by (relation "measure id") auto

definition toNumber :: "int \<Rightarrow> int" where
  "toNumber n =
     (let m = nat \<bar>n\<bar> in
      if m < 2 ^ 53 then n
      else
        let e = bit_length m - 53;
            q = m div 2 ^ e;
            r = m mod 2 ^ e;
            up = (2 ^ e < 2 * r \<or> (2 * r = 2 ^ e \<and> odd q))
        in sgn n * int ((if up then q + 1 else q) * 2 ^ e))"

text \<open>\<^verbatim>\<open>toString()\<close> of a non-negative bigint: its decimal digits.\<close>

function digits :: "nat \<Rightarrow> string" where
  "digits n = (if n < 10 then [''0123456789'' ! n]
               else digits (n div 10) @ [''0123456789'' ! (n mod 10)])"
  by pat_completeness auto
termination
  by (relation "measure id") auto

definition toString :: "nat \<Rightarrow> string" where
  "toString n = digits n"

datatype validator_status = Active | Unlocked

record DecodedValidatorRecord =
  pubkey :: string
  escrow :: string
  lock_ts :: int
  status :: validator_status
  num_accepts :: string

definition decodeValidatorRecord ::
  "(bytes \<Rightarrow> string) \<Rightarrow> bytes \<Rightarrow> error + DecodedValidatorRecord" where
  "decodeValidatorRecord bs58 data =
     (let off = 8;
          validator = bs58 (subarray data off (off + 32));
          off = off + 32;
          escrow' = bs58 (subarray data off (off + 32));
          off = off + 32
      in bindE (readBigInt64LE data off) (\<lambda>big.
      let lock_ts' = toNumber big;
          off = off + 8
      in bindE (readUInt8 data off) (\<lambda>status_u8.
      let off = off + 1;
          status' = (if status_u8 = 0 then Active else Unlocked)
      in bindE (readBigUInt64LE data off) (\<lambda>n.
      let num_accepts' = toString (nat n)
      in Inr \<lparr>pubkey = validator, escrow = escrow', lock_ts = lock_ts',
               status = status', num_accepts = num_accepts'\<rparr>))))"

section \<open>Verifier error mapping (errors.ts, mapProgramError)\<close>

text \<open>
  The regular expressions of \<^verbatim>\<open>mapProgramError\<close> are alternations of two literal tokens
  with the flag \<^verbatim>\<open>i\<close>, and \<^verbatim>\<open>test\<close> searches the whole message. Without the flag
  \<^verbatim>\<open>u\<close>, ECMAScript compares code units after upper-casing, and never lets a code unit
  of 128 or more match an ASCII one: against the ASCII letters and digits of the tokens
  this is equality up to the case of ASCII letters.
\<close>

definition upper_ascii :: "16 word \<Rightarrow> 16 word" where
  "upper_ascii c = (if 0x61 \<le> c \<and> c \<le> 0x7a then c - 0x20 else c)"

fun prefix_ci :: "jsstring \<Rightarrow> jsstring \<Rightarrow> bool" where
  "prefix_ci [] cs = True"
| "prefix_ci (p # ps) [] = False"
| "prefix_ci (p # ps) (c # cs) = (upper_ascii p = upper_ascii c \<and> prefix_ci ps cs)"

fun occurs_ci :: "jsstring \<Rightarrow> jsstring \<Rightarrow> bool" where
  "occurs_ci pat [] = prefix_ci pat []"
| "occurs_ci pat (c # cs) = (prefix_ci pat (c # cs) \<or> occurs_ci pat cs)"

text \<open>\<^verbatim>\<open>/A|B/i.test(msg)\<close> for literal tokens \<open>A\<close> and \<open>B\<close>.\<close>

definition test_alt_i :: "string \<Rightarrow> string \<Rightarrow> jsstring \<Rightarrow> bool" where
  "test_alt_i a b msg = (occurs_ci (js a) msg \<or> occurs_ci (js b) msg)"

text \<open>
  The argument \<^verbatim>\<open>err\<close>: an \<^verbatim>\<open>Error\<close> object with its message, or any other value, given
  by the string that \<^verbatim>\<open>String(err)\<close> returns.
\<close>

datatype thrown = ErrorObject jsstring | OtherValue jsstring

fun msg_of :: "thrown \<Rightarrow> jsstring" where
  "msg_of (ErrorObject m) = m"
| "msg_of (OtherValue s) = s"

record program_error =
  http :: nat
  code :: string
  message :: jsstring
  details :: "unit option"

definition mapProgramError :: "thrown \<Rightarrow> program_error" where
  "mapProgramError err =
     (let msg = msg_of err;
          to = (\<lambda>h c. \<lparr>http = h, code = c, message = msg, details = None\<rparr>)
      in if test_alt_i ''BadEd25519Order'' ''6015'' msg then to 400 ''BadEd25519Order''
         else if test_alt_i ''BadDomainSeparation'' ''6016'' msg then to 400 ''BadDomainSeparation''
         else if test_alt_i ''NonMonotonicSeq'' ''6012'' msg then to 400 ''NonMonotonicSeq''
         else if test_alt_i ''RangeOverlap'' ''6013'' msg then to 400 ''RangeOverlap''
         else if test_alt_i ''ClockSkew'' ''6014'' msg then to 400 ''ClockSkew''
         else if test_alt_i ''AggregatorMismatch'' ''6006'' msg then to 400 ''AggregatorMismatch''
         else if test_alt_i ''InvalidMint'' ''6000'' msg then to 400 ''InvalidMint''
         else if test_alt_i ''Paused'' ''6010'' msg then to 403 ''Paused''
         else to 500 ''AnchorSubmitFailed'')"

text \<open>
  The error table of the specification (section 4.4), row by row in its order: error
  name, numeric code, HTTP status, taxonomy code.
\<close>

definition error_table :: "(string \<times> string \<times> nat \<times> string) list" where
  "error_table =
     [(''BadEd25519Order'', ''6015'', 400, ''BadEd25519Order''),
      (''BadDomainSeparation'', ''6016'', 400, ''BadDomainSeparation''),
      (''NonMonotonicSeq'', ''6012'', 400, ''NonMonotonicSeq''),
      (''RangeOverlap'', ''6013'', 400, ''RangeOverlap''),
      (''ClockSkew'', ''6014'', 400, ''ClockSkew''),
      (''AggregatorMismatch'', ''6006'', 400, ''AggregatorMismatch''),
      (''InvalidMint'', ''6000'', 400, ''InvalidMint''),
      (''Paused'', ''6010'', 403, ''Paused'')]"

text \<open>
  What it means for a token of the table to occur in a message, stated without the
  search of the model: the message has a segment that spells the token, where two code
  units spell the same character when they are equal or are an ASCII capital letter
  (A to Z, 0x41 to 0x5A) and its small letter (0x20 higher). A row of the table occurs
  in a message when its name or its numeric code does.
\<close>

definition same_letter :: "16 word \<Rightarrow> 16 word \<Rightarrow> bool" where
  "same_letter a b =
     (a = b \<or> (0x41 \<le> a \<and> a \<le> 0x5A \<and> b = a + 0x20)
            \<or> (0x41 \<le> b \<and> b \<le> 0x5A \<and> a = b + 0x20))"

definition token_occurs :: "string \<Rightarrow> jsstring \<Rightarrow> bool" where
  "token_occurs tok msg =
     (\<exists>pre mid post. msg = pre @ mid @ post \<and> list_all2 same_letter mid (js tok))"

fun row_occurs :: "jsstring \<Rightarrow> string \<times> string \<times> nat \<times> string \<Rightarrow> bool" where
  "row_occurs msg (name, num, h, c) = (token_occurs name msg \<or> token_occurs num msg)"

section \<open>Canonical JSON (crypto.ts, canonicalize)\<close>

text \<open>
  The values \<^verbatim>\<open>canonicalize\<close> is applied to: JSON values and \<^verbatim>\<open>undefined\<close>. A number is
  modelled at integral values below \<open>10^21\<close> in magnitude, where \<^verbatim>\<open>JSON.stringify\<close>
  prints its decimal digits. An object is the list of its own enumerable properties,
  each key once; \<^verbatim>\<open>Object.keys\<close> lists them in some order, which the sort that follows
  makes irrelevant.
\<close>

datatype json =
    JNull
  | JUndefined
  | JBool bool
  | JNum int
  | JStr jsstring
  | JArr "json list"
  | JObj "(jsstring \<times> json) list"

text \<open>\<^verbatim>\<open>obj[k]\<close>: the value of the property, \<^verbatim>\<open>undefined\<close> when there is none.\<close>

definition obj_get :: "(jsstring \<times> json) list \<Rightarrow> jsstring \<Rightarrow> json" where
  "obj_get kvs k = (case map_of kvs k of Some v \<Rightarrow> v | None \<Rightarrow> JUndefined)"

text \<open>
  \<^verbatim>\<open>JSON.stringify\<close> of a string: the short escapes, \<^verbatim>\<open>\u00xx\<close> for the other control
  characters, \<^verbatim>\<open>\udxxx\<close> for a surrogate that is not part of a pair, every other code
  unit as it is.
\<close>

definition is_high_surrogate :: "16 word \<Rightarrow> bool" where
  "is_high_surrogate c = (0xD800 \<le> c \<and> c \<le> 0xDBFF)"

definition is_low_surrogate :: "16 word \<Rightarrow> bool" where
  "is_low_surrogate c = (0xDC00 \<le> c \<and> c \<le> 0xDFFF)"

definition unicode_escape :: "16 word \<Rightarrow> jsstring" where
  "unicode_escape c =
     [0x5C, 0x75] @
     js [hex_digit (unat c div 4096), hex_digit (unat c div 256 mod 16),
         hex_digit (unat c div 16 mod 16), hex_digit (unat c mod 16)]"

definition quote_unit :: "16 word \<Rightarrow> jsstring" where
  "quote_unit c =
     (if c = 0x08 then [0x5C, 0x62]
      else if c = 0x09 then [0x5C, 0x74]
      else if c = 0x0A then [0x5C, 0x6E]
      else if c = 0x0C then [0x5C, 0x66]
      else if c = 0x0D then [0x5C, 0x72]
      else if c = 0x22 then [0x5C, 0x22]
      else if c = 0x5C then [0x5C, 0x5C]
      else if c < 0x20 \<or> is_high_surrogate c \<or> is_low_surrogate c then unicode_escape c
      else [c])"

fun quote_units :: "jsstring \<Rightarrow> jsstring" where
  "quote_units [] = []"
| "quote_units [c] = quote_unit c"
| "quote_units (c # d # cs) =
     (if is_high_surrogate c \<and> is_low_surrogate d then c # d # quote_units cs
      else quote_unit c @ quote_units (d # cs))"

definition quoteJSON :: "jsstring \<Rightarrow> jsstring" where
  "quoteJSON s = [0x22] @ quote_units s @ [0x22]"

definition num_text :: "int \<Rightarrow> string" where
  "num_text n = (if n < 0 then ''-'' @ digits (nat (- n)) else digits (nat n))"

text \<open>\<^verbatim>\<open>join(",")\<close> on strings.\<close>

fun join_comma :: "jsstring list \<Rightarrow> jsstring" where
  "join_comma [] = []"
| "join_comma [s] = s"
| "join_comma (s # t # ts) = s @ [0x2C] @ join_comma (t # ts)"

text \<open>
  The keys an object is rendered with: \<^verbatim>\<open>Object.keys(obj).filter(...).sort()\<close>. The
  default \<^verbatim>\<open>sort\<close> compares strings code unit by code unit, a proper prefix first: the
  lexicographic order of lists of 16-bit words.
\<close>

definition forbidden_key :: "jsstring \<Rightarrow> bool" where
  "forbidden_key k = (k = js ''__proto__'' \<or> k = js ''constructor'' \<or> k = js ''prototype'')"

definition canonical_keys :: "(jsstring \<times> json) list \<Rightarrow> jsstring list" where
  "canonical_keys kvs =
     sort (filter (\<lambda>k. obj_get kvs k \<noteq> JUndefined \<and> \<not> forbidden_key k) (map fst kvs))"

text \<open>
  \<^verbatim>\<open>stringifyCanonical\<close>; the result \<open>None\<close> is \<^verbatim>\<open>undefined\<close>, which \<^verbatim>\<open>JSON.stringify\<close>
  returns for \<^verbatim>\<open>undefined\<close>. \<^verbatim>\<open>join\<close> prints an \<^verbatim>\<open>undefined\<close> element as the empty
  string, and \<^verbatim>\<open>+\<close> would print it as \<^verbatim>\<open>undefined\<close>.
\<close>

function stringifyCanonical :: "json \<Rightarrow> jsstring option" where
  "stringifyCanonical JNull = Some (js ''null'')"
| "stringifyCanonical (JNum n) = Some (js (num_text n))"
| "stringifyCanonical (JBool b) = Some (js (if b then ''true'' else ''false''))"
| "stringifyCanonical (JStr s) = Some (quoteJSON s)"
| "stringifyCanonical (JArr vs) =
     Some (js ''['' @
           join_comma (map (\<lambda>v. case stringifyCanonical v of None \<Rightarrow> [] | Some s \<Rightarrow> s) vs) @
           js '']'')"
| "stringifyCanonical (JObj kvs) =
     Some (js ''{'' @
           join_comma
             (map (\<lambda>k. quoteJSON k @ js '':'' @
                        (case stringifyCanonical (obj_get kvs k) of
                           None \<Rightarrow> js ''undefined''
                         | Some s \<Rightarrow> s))
                (canonical_keys kvs)) @
           js ''}'')"
| "stringifyCanonical JUndefined = None"
  by pat_completeness auto
termination
proof (relation "measure size")
  show "wf (measure size)" by simp
next
  fix vs :: "json list" and v
  assume "v \<in> set vs"
  then have "size v < Suc (size_list size vs)"
    by (induction vs) auto
  then show "(v, JArr vs) \<in> measure size" by simp
next
  fix kvs :: "(jsstring \<times> json) list" and k
  have "size (obj_get kvs k) < Suc (size_list (size_prod (\<lambda>x. 0) size) kvs)"
  proof (cases "map_of kvs k")
    case None
    then show ?thesis by (simp add: obj_get_def)
  next
    case (Some v)
    then have "(k, v) \<in> set kvs" by (rule map_of_SomeD)
    then have "size v < Suc (size_list (size_prod (\<lambda>x. 0) size) kvs)"
      by (induction kvs) auto
    with Some show ?thesis by (simp add: obj_get_def)
  qed
  then show "(obj_get kvs k, JObj kvs) \<in> measure size" by simp
qed

definition canonicalize :: "json \<Rightarrow> jsstring option" where
  "canonicalize v = stringifyCanonical v"

text \<open>
  UTF-8, to state the byte-wise order of keys: \<^verbatim>\<open>Buffer.from(s, "utf8")\<close> encodes each
  code point, a surrogate pair as one code point of four bytes and a surrogate outside
  a pair as U+FFFD.
\<close>

definition utf8_cp :: "nat \<Rightarrow> bytes" where
  "utf8_cp n =
     (if n < 0x80 then [of_nat n]
      else if n < 0x800 then [of_nat (0xC0 + n div 64), of_nat (0x80 + n mod 64)]
      else if n < 0x10000 then
        [of_nat (0xE0 + n div 4096), of_nat (0x80 + n div 64 mod 64), of_nat (0x80 + n mod 64)]
      else
        [of_nat (0xF0 + n div 262144), of_nat (0x80 + n div 4096 mod 64),
         of_nat (0x80 + n div 64 mod 64), of_nat (0x80 + n mod 64)])"

fun utf8 :: "jsstring \<Rightarrow> bytes" where
  "utf8 [] = []"
| "utf8 [c] = (if is_high_surrogate c \<or> is_low_surrogate c then utf8_cp 0xFFFD
               else utf8_cp (unat c))"
| "utf8 (c # d # cs) =
     (if is_high_surrogate c \<and> is_low_surrogate d
      then utf8_cp (0x10000 + (unat c - 0xD800) * 0x400 + (unat d - 0xDC00)) @ utf8 cs
      else if is_high_surrogate c \<or> is_low_surrogate c then utf8_cp 0xFFFD @ utf8 (d # cs)
      else utf8_cp (unat c) @ utf8 (d # cs))"

text \<open>A string without surrogate code units: all its characters lie in the Basic
  Multilingual Plane.\<close>

definition bmp_only :: "jsstring \<Rightarrow> bool" where
  "bmp_only s = list_all (\<lambda>c. \<not> is_high_surrogate c \<and> \<not> is_low_surrogate c) s"

section \<open>Lemmas on buffers and hexadecimal text\<close>

lemma hex_digit_is_hex: "n < 16 \<Longrightarrow> is_hex_char (hex_digit n)"
  using nth_mem [of n "''0123456789abcdef''"] by (simp add: hex_digit_def is_hex_char_def)

lemma hex_val_digit_all: "\<forall>n<16. hex_val (hex_digit n) = Some n"
  by (simp add: eval_nat_numeral All_less_Suc hex_val_def hex_digit_def)

lemma hex_val_digit: "n < 16 \<Longrightarrow> hex_val (hex_digit n) = Some n"
  using hex_val_digit_all by blast

lemma fromHex_byte: "fromHex (hex_byte b @ cs) = map_option ((#) b) (fromHex cs)"
proof -
  have "unat b div 16 < 16" using unsigned_less[of b, where ?'a=nat] by simp
  moreover have "unat b mod 16 < 16" by simp
  moreover have "(of_nat (16 * (unat b div 16) + unat b mod 16) :: byte) = b" by simp
  ultimately show ?thesis
    by (cases "fromHex cs") (simp_all add: hex_byte_def hex_val_digit)
qed

lemma fromHex_toHex: "fromHex (toHex bs) = Some bs"
  by (induction bs) (simp_all add: toHex_def fromHex_byte)

lemma mask15: "(15::byte) = mask 4" and mask63: "(63::byte) = mask 6"
  by (simp_all add: mask_eq_exp_minus_1)

lemma version_nibble: "unat ((x AND 0x0f) OR 0x40 :: byte) div 16 = 4"
proof -
  have "drop_bit 4 ((x AND 0x0f) OR 0x40 :: byte) = 4"
    by (rule bit_word_eqI) (auto simp: bit_simps)
  then have "unat (drop_bit 4 ((x AND 0x0f) OR 0x40 :: byte)) = 4" by simp
  then show ?thesis by (simp add: drop_bit_eq_div unat_div)
qed

lemma version_low: "unat ((x AND 0x0f) OR 0x40 :: byte) mod 16 = unat x mod 16"
proof -
  have "take_bit 4 ((x AND 0x0f) OR 0x40 :: byte) = take_bit 4 x"
    unfolding mask15 by (rule bit_word_eqI) (auto simp: bit_simps)
  then have "unat (take_bit 4 ((x AND 0x0f) OR 0x40 :: byte)) = unat (take_bit 4 x)" by simp
  then show ?thesis by (simp add: take_bit_eq_mod unat_mod)
qed

lemma variant_bits: "unat ((x AND 0x3f) OR 0x80 :: byte) div 64 = 2"
proof -
  have "drop_bit 6 ((x AND 0x3f) OR 0x80 :: byte) = 2"
    by (rule bit_word_eqI) (auto simp: bit_simps)
  then have "unat (drop_bit 6 ((x AND 0x3f) OR 0x80 :: byte)) = 2" by simp
  then show ?thesis by (simp add: drop_bit_eq_div unat_div)
qed

lemma variant_low: "unat ((x AND 0x3f) OR 0x80 :: byte) mod 64 = unat x mod 64"
proof -
  have "take_bit 6 ((x AND 0x3f) OR 0x80 :: byte) = take_bit 6 x"
    unfolding mask63 by (rule bit_word_eqI) (auto simp: bit_simps)
  then have "unat (take_bit 6 ((x AND 0x3f) OR 0x80 :: byte)) = unat (take_bit 6 x)" by simp
  then show ?thesis by (simp add: take_bit_eq_mod unat_mod)
qed

lemma variant_digit: "hex_digit (unat ((x AND 0x3f) OR 0x80 :: byte) div 16) \<in> set ''89ab''"
proof -
  let ?w = "unat ((x AND 0x3f) OR 0x80 :: byte)"
  have "?w div 64 = 2" by (rule variant_bits)
  then have "?w div 16 \<in> {8, 9, 10, 11}" by auto
  then show ?thesis by (auto simp: hex_digit_def)
qed

lemma hex_byte_chars: "list_all is_hex_char (hex_byte b)"
proof -
  have "unat b div 16 < 16" using unsigned_less[of b, where ?'a=nat] by simp
  then show ?thesis by (simp add: hex_byte_def hex_digit_is_hex)
qed

lemma len16:
  assumes "length (xs :: 'a list) = 16"
  obtains x0 x1 x2 x3 x4 x5 x6 x7 x8 x9 x10 x11 x12 x13 x14 x15 where
    "xs = [x0,x1,x2,x3,x4,x5,x6,x7,x8,x9,x10,x11,x12,x13,x14,x15]"
proof -
  from assms have "\<exists>x0 x1 x2 x3 x4 x5 x6 x7 x8 x9 x10 x11 x12 x13 x14 x15.
    xs = [x0,x1,x2,x3,x4,x5,x6,x7,x8,x9,x10,x11,x12,x13,x14,x15]"
    by (auto simp add: eval_nat_numeral length_Suc_conv) 
  then show ?thesis using that by (elim exE)
qed

lemma toHex_Cons: "toHex (b # bs) = hex_byte b @ toHex bs" and toHex_Nil: "toHex [] = []"
  by (simp_all add: toHex_def)

lemma hex_char_not_dash: "is_hex_char c \<Longrightarrow> c \<noteq> CHR ''-''"
  by (auto simp: is_hex_char_def)

lemma hex_byte_no_dash: "filter (\<lambda>c. c \<noteq> CHR ''-'') (hex_byte b) = hex_byte b"
  using hex_byte_chars [of b] by (simp add: list_all_iff hex_char_not_dash)


lemma fromHex_byte1: "fromHex (hex_byte b) = Some [b]"
proof -
  have "fromHex (hex_byte b @ []) = map_option ((#) b) (fromHex [])" by (rule fromHex_byte)
  then show ?thesis by simp
qed

lemma hex_digit_hi: "is_hex_char (hex_digit (unat (b::byte) div 16))"
  using unsigned_less[of b, where ?'a=nat] by (simp add: hex_digit_is_hex)

lemma hex_digit_lo: "is_hex_char (hex_digit (unat (b::byte) mod 16))"
  by (simp add: hex_digit_is_hex)

lemma version_digit: "hex_digit (unat ((x AND 0x0f) OR 0x40 :: byte) div 16) = CHR ''4''"
  by (simp add: version_nibble hex_digit_def)

section \<open>Artifact identifier: RFC 4122 version 4 from the proof-hash\<close>

lemma uuidFromHash32_example:
  "uuidFromHash32 (map of_nat [0..<32]) = Inr ''00010203-0405-4607-8809-0a0b0c0d0e0f''"
  by code_simp

lemma uuidFromHash32_short: "length hash < 16 \<Longrightarrow> uuidFromHash32 hash = Inl (Error ''hash must be at least 16 bytes'')"
  by (simp add: uuidFromHash32_def)

lemma uuidFromHash32_prefix:
  "16 \<le> length h \<Longrightarrow> 16 \<le> length h' \<Longrightarrow> take 16 h = take 16 h' \<Longrightarrow> uuidFromHash32 h = uuidFromHash32 h'"
  by (simp add: uuidFromHash32_def subarray_def)

text \<open>
  Claim C8. For every proof-hash of at least 16 bytes, \<^verbatim>\<open>uuidFromHash32\<close> returns a dashed
  identifier that is a valid RFC 4122 version-4 UUID and spells 16 bytes \<open>b\<close>: every byte
  of \<open>b\<close> other than bytes 6 and 8 is the byte of the proof-hash at the same index; byte 6
  has the high nibble \<open>0100\<close> and keeps the low nibble of the hash's byte 6; byte 8 has
  the top two bits \<open>10\<close> and keeps the low six bits of the hash's byte 8. The identifier
  is a function of the proof-hash (of its first 16 bytes, \<open>uuidFromHash32_prefix\<close>).
\<close>

theorem uuidFromHash32_v4:
  assumes "16 \<le> length hash"
  shows "\<exists>u b. uuidFromHash32 hash = Inr u \<and> is_uuid_v4 u \<and>
           uuid_bytes u = Some b \<and> length b = 16 \<and>
           (\<forall>i<16. i \<noteq> 6 \<longrightarrow> i \<noteq> 8 \<longrightarrow> b ! i = hash ! i) \<and>
           unat (b ! 6) div 16 = 4 \<and> unat (b ! 6) mod 16 = unat (hash ! 6) mod 16 \<and>
           unat (b ! 8) div 64 = 2 \<and> unat (b ! 8) mod 64 = unat (hash ! 8) mod 64"
proof -
  from assms have len: "length (take 16 hash) = 16" by simp
  obtain x0 x1 x2 x3 x4 x5 x6 x7 x8 x9 x10 x11 x12 x13 x14 x15 where
    t: "take 16 hash = [x0,x1,x2,x3,x4,x5,x6,x7,x8,x9,x10,x11,x12,x13,x14,x15]"
    by (rule len16 [OF len])
  define y6 where "y6 = (x6 AND 0x0f) OR 0x40"
  define y8 where "y8 = (x8 AND 0x3f) OR 0x80"
  define b where "b = [x0,x1,x2,x3,x4,x5,y6,x7,y8,x9,x10,x11,x12,x13,x14,x15]"
  define u where "u = dashed (toHex b)"
  have nth: "hash ! i = [x0,x1,x2,x3,x4,x5,x6,x7,x8,x9,x10,x11,x12,x13,x14,x15] ! i"
    if "i < 16" for i
    using nth_take [of i 16 hash] that unfolding t by simp
  have run: "uuidFromHash32 hash = Inr u"
    using assms by (simp add: uuidFromHash32_def subarray_def t u_def b_def y6_def y8_def Let_def)
  have u_eq: "u = hex_byte x0 @ hex_byte x1 @ hex_byte x2 @ hex_byte x3 @ ''-'' @
                hex_byte x4 @ hex_byte x5 @ ''-'' @ hex_byte y6 @ hex_byte x7 @ ''-'' @
                hex_byte y8 @ hex_byte x9 @ ''-'' @ hex_byte x10 @ hex_byte x11 @
                hex_byte x12 @ hex_byte x13 @ hex_byte x14 @ hex_byte x15"
    by (simp add: u_def b_def dashed_def slice_def toHex_def hex_byte_def)
  have v4: "is_uuid_v4 u"
    unfolding u_eq is_uuid_v4_def
    by (simp add: hex_byte_def slice_def hex_digit_hi hex_digit_lo y6_def y8_def
          version_digit variant_digit [simplified])
  have bytes: "uuid_bytes u = Some b"
    unfolding uuid_bytes_def u_eq
    by (simp add: hex_byte_no_dash fromHex_byte del: fromHex.simps) (simp add: fromHex_byte1 b_def del: fromHex.simps)
  have same: "\<forall>i<16. i \<noteq> 6 \<longrightarrow> i \<noteq> 8 \<longrightarrow> b ! i = hash ! i"
    by (simp add: nth b_def) (simp add: eval_nat_numeral All_less_Suc)
  have h6: "hash ! 6 = x6" and h8: "hash ! 8 = x8"
    using nth [of 6] nth [of 8] by simp_all
  have b6: "b ! 6 = y6" and b8: "b ! 8 = y8" by (simp_all add: b_def)
  have "length b = 16" by (simp add: b_def)
  moreover have "unat (b ! 6) div 16 = 4" "unat (b ! 6) mod 16 = unat (hash ! 6) mod 16"
    by (simp_all add: b6 h6 y6_def version_nibble version_low)
  moreover have "unat (b ! 8) div 64 = 2" "unat (b ! 8) mod 64 = unat (hash ! 8) mod 64"
    by (simp_all add: b8 h8 y8_def variant_bits variant_low)
  ultimately show ?thesis using run v4 bytes same
    by (intro exI [of _ u] exI [of _ b] conjI)
qed

theorem uuidFromHash32_v4_witness:
  "16 \<le> length (replicate 32 (0xff :: byte)) \<and>
   (\<exists>u. uuidFromHash32 (replicate 32 0xff) = Inr u \<and> is_uuid_v4 u)"
  using uuidFromHash32_v4 [of "replicate 32 0xff"] by auto


section \<open>Little-endian encodings\<close>

lemma length_le_bytes: "length (le_bytes k n) = k"
  by (induction k arbitrary: n) simp_all

lemma le_bytes_numeral:
  "le_bytes (numeral k) n = of_nat (n mod 256) # le_bytes (pred_numeral k) (n div 256)"
  by (simp only: numeral_eq_Suc [of k] le_bytes.simps)

lemma le_val_le_bytes: "le_val (le_bytes k n) = n mod 256 ^ k"
proof (induction k arbitrary: n)
  case 0
  show ?case by simp
next
  case (Suc k)
  have "unat (of_nat (n mod 256) :: byte) = n mod 256"
    by (simp add: unat_of_nat)
  then have "le_val (le_bytes (Suc k) n) = n mod 256 + 256 * ((n div 256) mod 256 ^ k)"
    by (simp add: Suc.IH)
  also have "\<dots> = n mod 256 ^ Suc k"
    by (simp add: mod_mult2_eq)
  finally show ?case .
qed

lemma le_val_bound: "le_val bs < 256 ^ length bs"
proof (induction bs)
  case Nil
  show ?case by simp
next
  case (Cons b bs)
  have "unat b < 256" using unsigned_less [of b, where ?'a = nat] by simp
  with Cons show ?case by simp
qed

lemma le_bytes_le_val: "le_bytes (length bs) (le_val bs) = bs"
proof (induction bs)
  case Nil
  show ?case by simp
next
  case (Cons b bs)
  have b: "unat b < 256" using unsigned_less [of b, where ?'a = nat] by simp
  then have "(unat b + 256 * le_val bs) mod 256 = unat b" by simp
  moreover from b have "(unat b + 256 * le_val bs) div 256 = le_val bs" by simp
  ultimately show ?case using Cons by simp
qed

lemma enc64_ok:
  assumes "0 \<le> n" "n < 2 ^ 64"
  shows "\<exists>b. enc64 n = Inr b \<and> length b = 8 \<and> int (le_val b) = n"
proof -
  from assms have "nat n < 2 ^ 64" by (simp add: nat_less_iff)
  then have "nat n mod 256 ^ 8 = nat n" by simp
  with assms show ?thesis
    by (simp add: enc64_def length_le_bytes le_val_le_bytes)
qed

lemma u64le_ok:
  assumes "0 \<le> n" "n < 2 ^ 64"
  shows "\<exists>b. u64le n = Inr b \<and> length b = 8 \<and> int (le_val b) = n"
  using enc64_ok [OF assms] by (simp add: enc64_def u64le_def)

lemma enc64_range: "\<not> (0 \<le> n \<and> n < 2 ^ 64) \<Longrightarrow> enc64 n = Inl RangeError"
  by (simp add: enc64_def)

lemma bindE_Inr: "bindE (Inr v) f = f v" and bindE_Inl: "bindE (Inl e) f = Inl e"
  by (simp_all add: bindE_def)

lemma i64le_ok:
  assumes "i64le n = Inr b"
  shows "length b = 8 \<and> readBigInt64LE b 0 = Inr n"
proof -
  from assms have r: "- (2 ^ 63) \<le> n" "n < 2 ^ 63" and b: "b = le_bytes 8 (nat (n mod 2 ^ 64))"
    by (auto simp: i64le_def split: if_splits)
  have len: "length b = 8" by (simp add: b length_le_bytes)
  have "nat (n mod 2 ^ 64) < 2 ^ 64" by (simp add: nat_less_iff)
  then have v: "int (le_val b) = n mod 2 ^ 64"
    by (simp add: b le_val_le_bytes)
  have "readBigInt64LE b 0 = Inr n"
  proof (cases "0 \<le> n")
    case True
    with r have "n mod 2 ^ 64 = n" by simp
    with True r v len show ?thesis
      by (simp add: readBigInt64LE_def readUIntLE_def bindE_def)
  next
    case False
    have "n mod 2 ^ 64 = (n + 2 ^ 64) mod 2 ^ 64" by simp
    also have "\<dots> = n + 2 ^ 64"
      using False r by (intro mod_pos_pos_trivial) simp_all
    finally have "n mod 2 ^ 64 = n + 2 ^ 64" .
    with False r v len show ?thesis
      by (simp add: readBigInt64LE_def readUIntLE_def bindE_def)
  qed
  with len show ?thesis by simp
qed

lemma u64le_inv:
  assumes "u64le n = Inr b"
  shows "length b = 8 \<and> int (le_val b) = n"
proof -
  from assms have r: "0 \<le> n" "n < 2 ^ 64" by (auto simp: u64le_def split: if_splits)
  from u64le_ok [OF r] assms show ?thesis by auto
qed

lemma length_u32le: "length (u32le n) = 4"
  by (simp add: u32le_def length_le_bytes)

lemma le_val_u32le: "int (le_val (u32le n)) = n mod 2 ^ 32"
proof -
  have "nat (n mod 2 ^ 32) < 2 ^ 32" by (simp add: nat_less_iff)
  then show ?thesis by (simp add: u32le_def le_val_le_bytes)
qed

section \<open>The commitment preimage\<close>

lemma buildDS_little_endian_chain_id:
  "map_sum id (\<lambda>r. (length (ds r), subarray (ds r) 0 14, subarray (ds r) 14 22))
     (buildDS h 0x0102030405060708 (replicate 32 0) (replicate 32 0) 1 2 3)
   = Inr (110, ascii ''zKSL/anchor/v1'', [0x08, 0x07, 0x06, 0x05, 0x04, 0x03, 0x02, 0x01])"
  by (simp add: buildDS_def enc64_def bindE_def ascii_def subarray_def le_bytes_numeral Let_def)

lemma buildDS_out_of_range:
  "chainId < 0 \<or> 2 ^ 64 \<le> chainId \<Longrightarrow>
   buildDS h chainId programId proofHash startSlot endSlot seqv = Inl RangeError"
  by (auto simp: buildDS_def enc64_def bindE_def)

text \<open>
  Claim C1. For a chain id, slots and sequence number in the unsigned 64-bit range and a
  32-byte program id and proof hash, \<^verbatim>\<open>buildDS\<close> returns the preimage
  \<open>''zKSL/anchor/v1''\<close> (14 bytes), chain id (8 bytes, little-endian), program id,
  proof hash, start slot, end slot, sequence number (8 bytes each, little-endian), in
  this order; the preimage has 110 bytes and the digest returned is the hash function
  applied to this preimage. Little-endian is stated by reading the 8 bytes back with
  \<open>le_val\<close>.
\<close>

theorem buildDS_preimage:
  assumes "0 \<le> chainId" "chainId < 2 ^ 64" "0 \<le> startSlot" "startSlot < 2 ^ 64"
    and "0 \<le> endSlot" "endSlot < 2 ^ 64" "0 \<le> seqv" "seqv < 2 ^ 64"
    and "length programId = 32" "length proofHash = 32"
  shows "\<exists>c s e q d.
           buildDS blake3hash chainId programId proofHash startSlot endSlot seqv
             = Inr \<lparr>ds = d, dsHash = blake3hash d\<rparr> \<and>
           d = ascii ''zKSL/anchor/v1'' @ c @ programId @ proofHash @ s @ e @ q \<and>
           length (ascii ''zKSL/anchor/v1'') = 14 \<and>
           length c = 8 \<and> int (le_val c) = chainId \<and>
           length s = 8 \<and> int (le_val s) = startSlot \<and>
           length e = 8 \<and> int (le_val e) = endSlot \<and>
           length q = 8 \<and> int (le_val q) = seqv \<and>
           length d = 110"
proof -
  obtain c where c: "enc64 chainId = Inr c" "length c = 8" "int (le_val c) = chainId"
    using enc64_ok [OF assms(1,2)] by blast
  obtain s where s: "enc64 startSlot = Inr s" "length s = 8" "int (le_val s) = startSlot"
    using enc64_ok [OF assms(3,4)] by blast
  obtain e where e: "enc64 endSlot = Inr e" "length e = 8" "int (le_val e) = endSlot"
    using enc64_ok [OF assms(5,6)] by blast
  obtain q where q: "enc64 seqv = Inr q" "length q = 8" "int (le_val q) = seqv"
    using enc64_ok [OF assms(7,8)] by blast
  define d where "d = ascii ''zKSL/anchor/v1'' @ c @ programId @ proofHash @ s @ e @ q"
  have run: "buildDS blake3hash chainId programId proofHash startSlot endSlot seqv
               = Inr \<lparr>ds = d, dsHash = blake3hash d\<rparr>"
    by (simp add: buildDS_def c s e q bindE_Inr d_def Let_def)
  have lit: "length (ascii ''zKSL/anchor/v1'') = 14" by (simp add: ascii_def)
  have len: "length d = 110" by (simp add: d_def lit c s e q assms(9,10))
  show ?thesis
    using run d_def lit c(2,3) s(2,3) e(2,3) q(2,3) len by blast
qed

theorem buildDS_preimage_witness:
  "\<exists>d. buildDS (\<lambda>m. take 32 m) 1 (replicate 32 0) (replicate 32 0) 1 1 1
          = Inr \<lparr>ds = d, dsHash = take 32 d\<rparr> \<and> length d = 110"
proof -
  have "\<exists>c s e q d.
          buildDS (\<lambda>m. take 32 m) 1 (replicate 32 0) (replicate 32 0) 1 1 1
             = Inr \<lparr>ds = d, dsHash = take 32 d\<rparr> \<and>
           d = ascii ''zKSL/anchor/v1'' @ c @ replicate 32 0 @ replicate 32 0 @ s @ e @ q \<and>
           length (ascii ''zKSL/anchor/v1'') = 14 \<and>
           length c = 8 \<and> int (le_val c) = 1 \<and>
           length s = 8 \<and> int (le_val s) = 1 \<and>
           length e = 8 \<and> int (le_val e) = 1 \<and>
           length q = 8 \<and> int (le_val q) = 1 \<and>
           length d = 110"
    by (rule buildDS_preimage) simp_all
  then show ?thesis by blast
qed

section \<open>The anchor instruction payload\<close>

lemma encodeAnchorProofArgsBorsh_general:
  "encodeAnchorProofArgsBorsh sha256 artifactId proofHash32 seqLe startLe endLe artifactLen
       stateRootBefore stateRootAfter aggregatorPubkey timestampLe dsHash32
   = take 8 (sha256 (ascii ''global:anchor_proof'')) @ artifactId @ proofHash32 @ seqLe @
       startLe @ endLe @ u32le artifactLen @ stateRootBefore @ stateRootAfter @
       aggregatorPubkey @ timestampLe @ dsHash32"
  by (simp add: encodeAnchorProofArgsBorsh_def sha256_8_def subarray_def)

text \<open>
  Claim C2. With field buffers of the widths of the payload table (the three unsigned
  64-bit fields and the signed timestamp given by their little-endian encodings),
  \<^verbatim>\<open>encodeAnchorProofArgsBorsh\<close> returns 220 bytes: the first 8 bytes of SHA-256 of
  \<open>''global:anchor_proof''\<close>, then the 212-byte payload artifact_id (offset 8),
  proof_hash (24), seq (56), start_slot (64), end_slot (72), artifact_len (80, four bytes,
  little-endian, reduced modulo \<open>2^32\<close>), state_root_before (84), state_root_after (116),
  aggregator_pubkey (148), timestamp (180), ds_hash (188).
\<close>

theorem encodeAnchorProofArgsBorsh_layout:
  assumes "length (sha (ascii ''global:anchor_proof'')) = 32"
    and "length artifactId = 16" and "length proofHashB = 32"
    and "u64le seqv = Inr seqLe" and "u64le startv = Inr startLe" and "u64le endv = Inr endLe"
    and "length stateRootBefore = 32" and "length stateRootAfter = 32"
    and "length aggregatorPubkey = 32"
    and "i64le tsv = Inr timestampLe" and "length dsHashB = 32"
    and out_def: "out = encodeAnchorProofArgsBorsh sha artifactId proofHashB seqLe startLe
                    endLe artifactLen stateRootBefore stateRootAfter aggregatorPubkey
                    timestampLe dsHashB"
  shows "length out = 220 \<and>
         subarray out 0 8 = subarray (sha (ascii ''global:anchor_proof'')) 0 8 \<and>
         length (drop 8 out) = 212 \<and>
         subarray out 8 24 = artifactId \<and>
         subarray out 24 56 = proofHashB \<and>
         subarray out 56 64 = seqLe \<and> int (le_val seqLe) = seqv \<and>
         subarray out 64 72 = startLe \<and> int (le_val startLe) = startv \<and>
         subarray out 72 80 = endLe \<and> int (le_val endLe) = endv \<and>
         length (subarray out 80 84) = 4 \<and>
         int (le_val (subarray out 80 84)) = artifactLen mod 2 ^ 32 \<and>
         subarray out 84 116 = stateRootBefore \<and>
         subarray out 116 148 = stateRootAfter \<and>
         subarray out 148 180 = aggregatorPubkey \<and>
         subarray out 180 188 = timestampLe \<and> readBigInt64LE timestampLe 0 = Inr tsv \<and>
         subarray out 188 220 = dsHashB"
proof -
  define disc where "disc = take 8 (sha (ascii ''global:anchor_proof''))"
  have d: "length disc = 8" by (simp add: disc_def assms(1))
  note q = u64le_inv [OF assms(4)] and s = u64le_inv [OF assms(5)] and e = u64le_inv [OF assms(6)]
    and t = i64le_ok [OF assms(10)]
  define a where "a = u32le artifactLen"
  have a: "length a = 4" "int (le_val a) = artifactLen mod 2 ^ 32"
    by (simp_all add: a_def length_u32le le_val_u32le)
  have out: "out = disc @ artifactId @ proofHashB @ seqLe @ startLe @ endLe @ a @
               stateRootBefore @ stateRootAfter @ aggregatorPubkey @ timestampLe @ dsHashB"
    by (simp add: out_def encodeAnchorProofArgsBorsh_def sha256_8_def subarray_def disc_def a_def)
  note lens = d assms(2,3) q [THEN conjunct1] s [THEN conjunct1] e [THEN conjunct1] a(1)
    assms(7,8,9) t [THEN conjunct1] assms(11)
  have 1: "length out = 220" by (simp add: out lens)
  have 2: "subarray out 0 8 = subarray (sha (ascii ''global:anchor_proof'')) 0 8"
    by (simp add: out subarray_def lens) (simp add: disc_def)
  have 3: "length (drop 8 out) = 212" by (simp add: out lens)
  have 4: "subarray out 8 24 = artifactId" by (simp add: out subarray_def lens)
  have 5: "subarray out 24 56 = proofHashB" by (simp add: out subarray_def lens)
  have 6: "subarray out 56 64 = seqLe" by (simp add: out subarray_def lens)
  have 7: "subarray out 64 72 = startLe" by (simp add: out subarray_def lens)
  have 8: "subarray out 72 80 = endLe" by (simp add: out subarray_def lens)
  have 9: "subarray out 80 84 = a" by (simp add: out subarray_def lens)
  have 10: "subarray out 84 116 = stateRootBefore" by (simp add: out subarray_def lens)
  have 11: "subarray out 116 148 = stateRootAfter" by (simp add: out subarray_def lens)
  have 12: "subarray out 148 180 = aggregatorPubkey" by (simp add: out subarray_def lens)
  have 13: "subarray out 180 188 = timestampLe" by (simp add: out subarray_def lens)
  have 14: "subarray out 188 220 = dsHashB" by (simp add: out subarray_def lens)
  show ?thesis
    unfolding 9 using 1 2 3 4 5 6 7 8 10 11 12 13 14 a q s e t by simp
qed

theorem encodeAnchorProofArgsBorsh_layout_witness:
  "length (encodeAnchorProofArgsBorsh (\<lambda>m. replicate 32 0) (replicate 16 1) (replicate 32 2)
      (le_bytes 8 7) (le_bytes 8 1) (le_bytes 8 2) 5 (replicate 32 3) (replicate 32 4)
      (replicate 32 5) (le_bytes 8 1700000000) (replicate 32 6)) = 220"
  using encodeAnchorProofArgsBorsh_layout
    [where sha = "\<lambda>m. replicate 32 0" and artifactId = "replicate 16 1"
       and proofHashB = "replicate 32 2" and seqv = 7 and seqLe = "le_bytes 8 7"
       and startv = 1 and startLe = "le_bytes 8 1" and endv = 2 and endLe = "le_bytes 8 2"
       and artifactLen = 5 and stateRootBefore = "replicate 32 3"
       and stateRootAfter = "replicate 32 4" and aggregatorPubkey = "replicate 32 5"
       and tsv = 1700000000 and timestampLe = "le_bytes 8 1700000000"
       and dsHashB = "replicate 32 6", OF _ _ _ _ _ _ _ _ _ _ _ refl]
  by (simp add: u64le_def i64le_def)

section \<open>The ProofRecord account decoder\<close>

lemma readUIntLE_at:
  assumes "length pre = off" and "length b = w"
  shows "readUIntLE w (pre @ b @ post) off = Inr (int (le_val b))"
  using assms by (simp add: readUIntLE_def)

lemma readBigInt64LE_at:
  assumes "length pre = off" and "i64le n = Inr b"
  shows "readBigInt64LE (pre @ b @ post) off = Inr n"
proof -
  from i64le_ok [OF assms(2)] have len: "length b = 8" and rd: "readBigInt64LE b 0 = Inr n"
    by simp_all
  have "readUIntLE 8 (pre @ b @ post) off = readUIntLE 8 b 0"
    using assms(1) len by (simp add: readUIntLE_def)
  with rd show ?thesis by (simp add: readBigInt64LE_def)
qed

lemma subarray_at:
  assumes "length pre = off" and "length b = w" and "e = off + w"
  shows "subarray (pre @ b @ post) off e = b"
  using assms by (simp add: subarray_def)

lemma replicate_numeral_Cons: "replicate (numeral k) x = x # replicate (pred_numeral k) x"
  by (simp only: numeral_eq_Suc [of k] replicate_Suc)

lemma decodeProofRecord_long:
  assumes "220 \<le> length data"
  shows "decodeProofRecord bs58 data =
         Inr \<lparr>artifact_id = uuidFrom16 (take 16 (drop 8 data)),
               start_slot = int (le_val (take 8 (drop 24 data))),
               end_slot = int (le_val (take 8 (drop 32 data))),
               proof_hash = take 32 (drop 40 data),
               artifact_len = int (le_val (take 4 (drop 72 data))),
               state_root_before = take 32 (drop 76 data),
               state_root_after = take 32 (drop 108 data),
               submitted_by = bs58 (take 32 (drop 140 data)),
               aggregator_pubkey = bs58 (take 32 (drop 172 data)),
               timestamp = (if int (le_val (take 8 (drop 204 data))) < 2 ^ 63
                            then int (le_val (take 8 (drop 204 data)))
                            else int (le_val (take 8 (drop 204 data))) - 2 ^ 64),
               seq = int (le_val (take 8 (drop 212 data))),
               ds_hash = take 32 (drop 220 data)\<rparr>"
  using assms
  by (simp add: decodeProofRecord_def Let_def readBigUInt64LE_def readUInt32LE_def
      readBigInt64LE_def readUIntLE_def bindE_def subarray_def)

lemma decodeProofRecord_short:
  "length data < 220 \<Longrightarrow> decodeProofRecord bs58 data = Inl RangeError"
  by (simp add: decodeProofRecord_def Let_def readBigUInt64LE_def readUInt32LE_def
      readBigInt64LE_def readUIntLE_def bindE_def)

text \<open>
  Claim C3, as stated, fails: the bytes of an anchor payload behind their discriminator
  do not decode to the fields that were encoded. The decoder reads start_slot where the
  payload holds proof_hash, reads seq where the payload holds ds_hash, and finds no
  ds_hash within the 220 bytes.
\<close>

theorem decodeProofRecord_payload_counterexample:
  "\<exists>r. decodeProofRecord toHex
           (encodeAnchorProofArgsBorsh (\<lambda>m. replicate 32 0) (replicate 16 1) (replicate 32 2)
              (le_bytes 8 7) (le_bytes 8 1) (le_bytes 8 2) 5 (replicate 32 3) (replicate 32 4)
              (replicate 32 5) (le_bytes 8 9) (replicate 32 6)) = Inr r \<and>
        start_slot r = 0x0202020202020202 \<and> start_slot r \<noteq> 1 \<and>
        proof_hash r = replicate 16 2 @ le_bytes 8 7 @ le_bytes 8 1 \<and>
        proof_hash r \<noteq> replicate 32 2 \<and>
        seq r = 0x0606060606060606 \<and> seq r \<noteq> 7 \<and>
        ds_hash r = [] \<and> ds_hash r \<noteq> replicate 32 6"
proof -
  define data where "data = encodeAnchorProofArgsBorsh (\<lambda>m. replicate 32 0) (replicate 16 1)
      (replicate 32 2) (le_bytes 8 7) (le_bytes 8 1) (le_bytes 8 2) 5 (replicate 32 3)
      (replicate 32 4) (replicate 32 5) (le_bytes 8 9) (replicate 32 6)"
  have split: "data = replicate 8 0 @ replicate 16 1 @ replicate 32 2 @ le_bytes 8 7 @
      le_bytes 8 1 @ le_bytes 8 2 @ u32le 5 @ replicate 32 3 @ replicate 32 4 @
      replicate 32 5 @ le_bytes 8 9 @ replicate 32 6"
    by (simp add: data_def encodeAnchorProofArgsBorsh_general)
  have len: "length data = 220"
    by (simp add: split length_le_bytes length_u32le)
  have f1: "take 8 (drop 24 data) = replicate 8 2"
    by (simp add: split length_le_bytes length_u32le)
  have f2: "take 32 (drop 40 data) = replicate 16 2 @ le_bytes 8 7 @ le_bytes 8 1"
    by (simp add: split length_le_bytes length_u32le)
  have f3: "take 8 (drop 212 data) = replicate 8 6"
    by (simp add: split length_le_bytes length_u32le)
  have f4: "take 32 (drop 220 data) = []"
    by (simp add: len)
  have v1: "int (le_val (replicate 8 2)) = 0x0202020202020202"
    by (simp add: replicate_numeral_Cons)
  have v3: "int (le_val (replicate 8 6)) = 0x0606060606060606"
    by (simp add: replicate_numeral_Cons)
  have ne: "replicate 16 2 @ le_bytes 8 7 @ le_bytes 8 1 \<noteq> replicate 32 (2 :: byte)"
    by (simp add: replicate_numeral_Cons le_bytes_numeral)
  have dec: "decodeProofRecord toHex data
         = Inr \<lparr>artifact_id = uuidFrom16 (take 16 (drop 8 data)),
               start_slot = int (le_val (take 8 (drop 24 data))),
               end_slot = int (le_val (take 8 (drop 32 data))),
               proof_hash = take 32 (drop 40 data),
               artifact_len = int (le_val (take 4 (drop 72 data))),
               state_root_before = take 32 (drop 76 data),
               state_root_after = take 32 (drop 108 data),
               submitted_by = toHex (take 32 (drop 140 data)),
               aggregator_pubkey = toHex (take 32 (drop 172 data)),
               timestamp = (if int (le_val (take 8 (drop 204 data))) < 2 ^ 63
                            then int (le_val (take 8 (drop 204 data)))
                            else int (le_val (take 8 (drop 204 data))) - 2 ^ 64),
               seq = int (le_val (take 8 (drop 212 data))),
               ds_hash = take 32 (drop 220 data)\<rparr>"
    by (rule decodeProofRecord_long) (simp add: len)
  show ?thesis
    unfolding data_def [symmetric] dec
    using ne by (simp add: f1 f2 f3 f4 v1 v3)
qed

text \<open>
  Claim C3, amended. After the 8-byte discriminator \<^verbatim>\<open>decodeProofRecord\<close> reads the
  account's own layout: artifact_id (16 bytes, offset 8), start_slot (u64 LE, 24),
  end_slot (u64 LE, 32), proof_hash (32 bytes, 40), artifact_len (u32 LE, 72),
  state_root_before (76), state_root_after (108), submitted_by (32 bytes, 140),
  aggregator_pubkey (172), timestamp (i64 LE, 204), seq (u64 LE, 212), ds_hash (32 bytes,
  220): the fields of the payload in another order, and submitted_by, which the payload
  does not have (244 bytes after the discriminator).
\<close>

theorem decodeProofRecord_layout:
  assumes "length disc = 8" and "length aid = 16"
    and "u64le startv = Inr startLe" and "u64le endv = Inr endLe"
    and "length ph = 32" and "length alenLe = 4"
    and "length srb = 32" and "length sra = 32" and "length sub = 32" and "length agg = 32"
    and "i64le tsv = Inr tsLe" and "u64le seqv = Inr seqLe" and "length dsh = 32"
  shows "decodeProofRecord bs58
           (disc @ aid @ startLe @ endLe @ ph @ alenLe @ srb @ sra @ sub @ agg @ tsLe @ seqLe
              @ dsh @ rest)
         = Inr \<lparr>artifact_id = uuidFrom16 aid, start_slot = startv, end_slot = endv,
                 proof_hash = ph, artifact_len = int (le_val alenLe),
                 state_root_before = srb, state_root_after = sra,
                 submitted_by = bs58 sub, aggregator_pubkey = bs58 agg,
                 timestamp = tsv, seq = seqv, ds_hash = dsh\<rparr>"
proof -
  note s = u64le_inv [OF assms(3)] and e = u64le_inv [OF assms(4)] and q = u64le_inv [OF assms(12)]
    and t = i64le_ok [OF assms(11)]
  let ?data = "disc @ aid @ startLe @ endLe @ ph @ alenLe @ srb @ sra @ sub @ agg @ tsLe @ seqLe
                 @ dsh @ rest"
  note lens = assms(1,2) s [THEN conjunct1] e [THEN conjunct1] assms(5-10) t [THEN conjunct1]
    q [THEN conjunct1] assms(13)
  have a: "subarray ?data 8 24 = aid"
    using subarray_at [of disc 8 aid 16 24] lens by simp
  have b: "readBigUInt64LE ?data 24 = Inr startv"
    using readUIntLE_at [of "disc @ aid" 24 startLe 8] lens s by (simp add: readBigUInt64LE_def)
  have c: "readBigUInt64LE ?data 32 = Inr endv"
    using readUIntLE_at [of "disc @ aid @ startLe" 32 endLe 8] lens e
    by (simp add: readBigUInt64LE_def)
  have d: "subarray ?data 40 72 = ph"
    using subarray_at [of "disc @ aid @ startLe @ endLe" 40 ph 32 72] lens by simp
  have f: "readUInt32LE ?data 72 = Inr (int (le_val alenLe))"
    using readUIntLE_at [of "disc @ aid @ startLe @ endLe @ ph" 72 alenLe 4] lens
    by (simp add: readUInt32LE_def)
  have g: "subarray ?data 76 108 = srb"
    using subarray_at [of "disc @ aid @ startLe @ endLe @ ph @ alenLe" 76 srb 32 108] lens
    by simp
  have h: "subarray ?data 108 140 = sra"
    using subarray_at [of "disc @ aid @ startLe @ endLe @ ph @ alenLe @ srb" 108 sra 32 140] lens
    by simp
  have i: "subarray ?data 140 172 = sub"
    using subarray_at [of "disc @ aid @ startLe @ endLe @ ph @ alenLe @ srb @ sra" 140 sub 32 172]
      lens by simp
  have j: "subarray ?data 172 204 = agg"
    using subarray_at
      [of "disc @ aid @ startLe @ endLe @ ph @ alenLe @ srb @ sra @ sub" 172 agg 32 204]
      lens by simp
  have k: "readBigInt64LE ?data 204 = Inr tsv"
    using readBigInt64LE_at
      [of "disc @ aid @ startLe @ endLe @ ph @ alenLe @ srb @ sra @ sub @ agg" 204 tsv tsLe]
      lens assms(11) by simp
  have l: "readBigUInt64LE ?data 212 = Inr seqv"
    using readUIntLE_at
      [of "disc @ aid @ startLe @ endLe @ ph @ alenLe @ srb @ sra @ sub @ agg @ tsLe" 212 seqLe 8]
      lens q by (simp add: readBigUInt64LE_def)
  have m: "subarray ?data 220 252 = dsh"
    using subarray_at
      [of "disc @ aid @ startLe @ endLe @ ph @ alenLe @ srb @ sra @ sub @ agg @ tsLe @ seqLe"
          220 dsh 32 252 rest]
      lens by simp
  show ?thesis
    unfolding decodeProofRecord_def Let_def
    by (simp only: a b c d f g h i j k l m bindE_Inr
          arith_simps numeral_plus_numeral)
qed

theorem decodeProofRecord_layout_witness:
  "decodeProofRecord toHex
     (replicate 8 0 @ replicate 16 1 @ le_bytes 8 2 @ le_bytes 8 3 @ replicate 32 1 @
      le_bytes 4 123 @ replicate 32 2 @ replicate 32 3 @ replicate 32 4 @ replicate 32 5 @
      le_bytes 8 10 @ le_bytes 8 11 @ replicate 32 6 @ [])
   = Inr \<lparr>artifact_id = uuidFrom16 (replicate 16 1), start_slot = 2, end_slot = 3,
           proof_hash = replicate 32 1, artifact_len = int (le_val (le_bytes 4 123)),
           state_root_before = replicate 32 2, state_root_after = replicate 32 3,
           submitted_by = toHex (replicate 32 4), aggregator_pubkey = toHex (replicate 32 5),
           timestamp = 10, seq = 11, ds_hash = replicate 32 6\<rparr>"
  by (rule decodeProofRecord_layout) (simp_all add: u64le_def i64le_def length_le_bytes)

section \<open>The ValidatorRecord account decoder\<close>

lemma take1_drop: "n < length xs \<Longrightarrow> take (Suc 0) (drop n xs) = [xs ! n]"
  using Cons_nth_drop_Suc [of n xs] by (simp flip: Cons_nth_drop_Suc)

lemma readUInt8_at: "n < length data \<Longrightarrow> readUInt8 data n = Inr (int (unat (data ! n)))"
  by (simp add: readUInt8_def readUIntLE_def take1_drop Suc_le_eq)

text \<open>
  Claim C10, amended. \<^verbatim>\<open>decodeValidatorRecord\<close> fails exactly on account data shorter
  than 89 bytes. On longer data it returns status Active when the byte at offset 80 of
  the data (offset 72 behind the 8-byte discriminator) is 0 and Unlocked for every other
  value of that byte: no value of the status byte makes it fail.
\<close>

theorem decodeValidatorRecord_status:
  "(length data < 89 \<longrightarrow> decodeValidatorRecord bs58 data = Inl RangeError) \<and>
   (89 \<le> length data \<longrightarrow>
      (\<exists>r. decodeValidatorRecord bs58 data = Inr r \<and>
           status r = (if data ! 80 = 0 then Active else Unlocked) \<and>
           data ! 80 = drop 8 data ! 72))"
proof (intro conjI impI)
  assume "length data < 89"
  then show "decodeValidatorRecord bs58 data = Inl RangeError"
    by (simp add: decodeValidatorRecord_def Let_def readBigInt64LE_def readUInt8_def
        readBigUInt64LE_def readUIntLE_def bindE_def)
next
  assume len: "89 \<le> length data"
  then have st: "readUInt8 data 80 = Inr (int (unat (data ! 80)))"
    by (simp add: readUInt8_at)
  have z: "(uint (data ! 80) = 0) = (data ! 80 = 0)"
    by (simp add: unsigned_eq_0_iff)
  from len have same: "data ! 80 = drop 8 data ! 72" by simp
  from len obtain ts where ts: "readBigInt64LE data 72 = Inr ts"
    by (simp add: readBigInt64LE_def readUIntLE_def bindE_def)
  from len obtain n where n: "readBigUInt64LE data 81 = Inr n"
    by (simp add: readBigUInt64LE_def readUIntLE_def)
  have "\<exists>r. decodeValidatorRecord bs58 data = Inr r \<and>
           status r = (if data ! 80 = 0 then Active else Unlocked)"
    by (simp add: decodeValidatorRecord_def Let_def ts st n bindE_Inr z)
  with same show "\<exists>r. decodeValidatorRecord bs58 data = Inr r \<and>
           status r = (if data ! 80 = 0 then Active else Unlocked) \<and>
           data ! 80 = drop 8 data ! 72"
    by blast
qed

theorem decodeValidatorRecord_status_witness:
  "\<exists>r. decodeValidatorRecord toHex (replicate 80 0 @ [7] @ replicate 55 0) = Inr r \<and>
       status r = Unlocked"
  using decodeValidatorRecord_status [of "replicate 80 0 @ [7] @ replicate 55 0" toHex]
  by (simp add: nth_append)

text \<open>
  Claim C10, as stated, fails on the offset: byte 72 of the account data is the first
  byte of lock_ts. Here it is 0 while the status byte (offset 80) is 1, and the decoder
  returns Unlocked.
\<close>

theorem decodeValidatorRecord_offset_counterexample:
  "\<exists>r. decodeValidatorRecord toHex (replicate 80 0 @ [1] @ replicate 55 0) = Inr r \<and>
       (replicate 80 0 @ [1] @ replicate 55 0 :: bytes) ! 72 = 0 \<and> status r = Unlocked"
proof -
  have "\<exists>r. decodeValidatorRecord toHex (replicate 80 0 @ [1] @ replicate 55 0) = Inr r \<and>
       status r = Unlocked"
    using decodeValidatorRecord_status [of "replicate 80 0 @ [1] @ replicate 55 0" toHex]
    by (simp add: nth_append)
  moreover have "(replicate 80 0 @ [1] @ replicate 55 0 :: bytes) ! 72 = 0"
    by (simp add: nth_append)
  ultimately show ?thesis by blast
qed

section \<open>Verifier error mapping\<close>

text \<open>
  The search of the model finds a token exactly when the token occurs in the message in
  the sense of \<open>token_occurs\<close>: somewhere, and up to the case of ASCII letters.
\<close>

lemma unat_upper_ascii:
  "unat (upper_ascii a) = (if 97 \<le> unat a \<and> unat a \<le> 122 then unat a - 32 else unat a)"
proof -
  have "unat (a - 0x20) = unat a - 32" if "97 \<le> unat a"
  proof -
    from that have "(0x20 :: 16 word) \<le> a" by (simp add: word_le_nat_alt)
    then show ?thesis by (simp add: unat_sub)
  qed
  then show ?thesis by (simp add: upper_ascii_def word_le_nat_alt)
qed

lemma unat_plus_32: "unat (a :: 16 word) \<le> 90 \<Longrightarrow> unat (a + 0x20) = unat a + 32"
  by (simp add: unat_word_ariths)

lemma capital_and_small:
  "(0x41 \<le> a \<and> a \<le> 0x5A \<and> b = a + 0x20) \<longleftrightarrow>
   (65 \<le> unat a \<and> unat a \<le> 90 \<and> unat b = unat a + 32)" for a b :: "16 word"
proof (cases "unat a \<le> 90")
  case True
  have "(b = a + 0x20) = (unat b = unat a + 32)"
    using unat_plus_32 [OF True] by (auto simp: word_unat_eq_iff)
  then show ?thesis by (simp add: word_le_nat_alt)
next
  case False
  then show ?thesis by (simp add: word_le_nat_alt)
qed

lemma same_letter_unat:
  "same_letter a b \<longleftrightarrow>
     (unat a = unat b \<or> (65 \<le> unat a \<and> unat a \<le> 90 \<and> unat b = unat a + 32)
                     \<or> (65 \<le> unat b \<and> unat b \<le> 90 \<and> unat a = unat b + 32))"
  unfolding same_letter_def capital_and_small by (simp add: word_unat_eq_iff)

lemma upper_ascii_eq_iff: "upper_ascii a = upper_ascii b \<longleftrightarrow> same_letter a b"
proof -
  have "upper_ascii a = upper_ascii b \<longleftrightarrow> unat (upper_ascii a) = unat (upper_ascii b)"
    by (simp add: word_unat_eq_iff)
  then show ?thesis
    unfolding unat_upper_ascii same_letter_unat by (auto split: if_splits)
qed

lemma same_letter_sym: "same_letter a b = same_letter b a"
  by (auto simp: same_letter_def)

lemma prefix_ci_iff:
  "prefix_ci p cs \<longleftrightarrow> (\<exists>mid post. cs = mid @ post \<and> list_all2 same_letter mid p)"
proof (induction p cs rule: prefix_ci.induct)
  case (1 cs)
  show ?case by simp
next
  case (2 p ps)
  show ?case by simp
next
  case (3 p ps c cs)
  show ?case
  proof
    assume "prefix_ci (p # ps) (c # cs)"
    then have l: "same_letter c p" and r: "prefix_ci ps cs"
      by (simp_all add: upper_ascii_eq_iff same_letter_sym)
    from r 3 obtain mid post where "cs = mid @ post" "list_all2 same_letter mid ps" by blast
    with l have "c # cs = (c # mid) @ post \<and> list_all2 same_letter (c # mid) (p # ps)" by simp
    then show "\<exists>mid post. c # cs = mid @ post \<and> list_all2 same_letter mid (p # ps)" by blast
  next
    assume "\<exists>mid post. c # cs = mid @ post \<and> list_all2 same_letter mid (p # ps)"
    then obtain mid post where m: "c # cs = mid @ post" "list_all2 same_letter mid (p # ps)"
      by blast
    from m(2) obtain m1 mid' where mid: "mid = m1 # mid'" "same_letter m1 p"
      "list_all2 same_letter mid' ps"
      by (auto simp: list_all2_Cons2)
    with m(1) have "c = m1" "cs = mid' @ post" by simp_all
    with mid 3 show "prefix_ci (p # ps) (c # cs)"
      by (auto simp: upper_ascii_eq_iff same_letter_sym)
  qed
qed

lemma occurs_ci_iff:
  "occurs_ci p m \<longleftrightarrow> (\<exists>pre mid post. m = pre @ mid @ post \<and> list_all2 same_letter mid p)"
proof (induction m)
  case Nil
  show ?case by (auto simp: prefix_ci_iff)
next
  case (Cons c cs)
  show ?case
  proof
    assume "occurs_ci p (c # cs)"
    then consider "prefix_ci p (c # cs)" | "occurs_ci p cs" by auto
    then show "\<exists>pre mid post. c # cs = pre @ mid @ post \<and> list_all2 same_letter mid p"
    proof cases
      case 1
      then obtain mid post where "c # cs = [] @ mid @ post" "list_all2 same_letter mid p"
        by (auto simp: prefix_ci_iff)
      then show ?thesis by blast
    next
      case 2
      with Cons obtain pre mid post where "cs = pre @ mid @ post" "list_all2 same_letter mid p"
        by blast
      then have "c # cs = (c # pre) @ mid @ post \<and> list_all2 same_letter mid p" by simp
      then show ?thesis by blast
    qed
  next
    assume "\<exists>pre mid post. c # cs = pre @ mid @ post \<and> list_all2 same_letter mid p"
    then obtain pre mid post where m: "c # cs = pre @ mid @ post" "list_all2 same_letter mid p"
      by blast
    show "occurs_ci p (c # cs)"
    proof (cases pre)
      case Nil
      with m have "prefix_ci p (c # cs)" by (auto simp: prefix_ci_iff)
      then show ?thesis by simp
    next
      case (Cons x pre')
      with m have "cs = pre' @ mid @ post" by simp
      with m(2) Cons.IH have "occurs_ci p cs" by blast
      then show ?thesis by simp
    qed
  qed
qed

lemma token_occurs_iff: "token_occurs tok msg = occurs_ci (js tok) msg"
  by (simp add: token_occurs_def occurs_ci_iff)

lemma row_occurs_test: "row_occurs msg (name, num, h, c) = test_alt_i name num msg"
  by (simp add: token_occurs_iff test_alt_i_def)


lemma mapProgramError_find:
  "(http (mapProgramError err), code (mapProgramError err)) =
     (case find (row_occurs (msg_of err)) error_table of
        Some (name, num, h, c) \<Rightarrow> (h, c)
      | None \<Rightarrow> (500, ''AnchorSubmitFailed''))"
  by (simp add: mapProgramError_def error_table_def row_occurs_test Let_def del: row_occurs.simps)

lemma mapProgramError_first_row_wins:
  "code (mapProgramError (ErrorObject (js ''Paused 6015''))) = ''BadEd25519Order''"
  by (simp add: mapProgramError_def test_alt_i_def js_def upper_ascii_def Let_def)

lemma mapProgramError_unknown:
  "(http (mapProgramError (ErrorObject (js ''boom''))),
    code (mapProgramError (ErrorObject (js ''boom''))))
   = (500, ''AnchorSubmitFailed'')"
  by (simp add: mapProgramError_def test_alt_i_def js_def upper_ascii_def Let_def)

text \<open>
  Claim C7. For every thrown value, \<^verbatim>\<open>mapProgramError\<close> returns the HTTP status and the
  code of the row of the error table whose name or numeric code occurs in the message,
  anywhere in it and with letters compared case-insensitively; when tokens of several
  rows occur, it is the first of these rows in the order of the table. It returns 500
  with AnchorSubmitFailed when no token of the table occurs. The message is passed
  through and the details are null.
\<close>

theorem mapProgramError_table:
  "(\<forall>i < length error_table.
      row_occurs (msg_of err) (error_table ! i) \<and>
      (\<forall>j < i. \<not> row_occurs (msg_of err) (error_table ! j)) \<longrightarrow>
      (http (mapProgramError err), code (mapProgramError err)) = snd (snd (error_table ! i))) \<and>
   ((\<forall>row \<in> set error_table. \<not> row_occurs (msg_of err) row) \<longrightarrow>
      (http (mapProgramError err), code (mapProgramError err)) = (500, ''AnchorSubmitFailed'')) \<and>
   message (mapProgramError err) = msg_of err \<and> details (mapProgramError err) = None"
proof (intro conjI allI impI)
  fix i
  assume i: "i < length error_table"
    and "row_occurs (msg_of err) (error_table ! i) \<and>
         (\<forall>j < i. \<not> row_occurs (msg_of err) (error_table ! j))"
  then have "find (row_occurs (msg_of err)) error_table = Some (error_table ! i)"
    unfolding find_Some_iff by blast
  then show "(http (mapProgramError err), code (mapProgramError err)) = snd (snd (error_table ! i))"
    unfolding mapProgramError_find by (simp split: prod.splits)
next
  assume "\<forall>row \<in> set error_table. \<not> row_occurs (msg_of err) row"
  then have "find (row_occurs (msg_of err)) error_table = None"
    unfolding find_None_iff by blast
  then show "(http (mapProgramError err), code (mapProgramError err)) = (500, ''AnchorSubmitFailed'')"
    unfolding mapProgramError_find by simp
next
  show "message (mapProgramError err) = msg_of err"
    by (simp add: mapProgramError_def Let_def)
next
  show "details (mapProgramError err) = None"
    by (simp add: mapProgramError_def Let_def)
qed

theorem mapProgramError_table_witness:
  "token_occurs ''BadEd25519Order'' (js ''a BADED25519ORDER'') \<and>
   (http (mapProgramError (ErrorObject (js ''a BADED25519ORDER''))),
    code (mapProgramError (ErrorObject (js ''a BADED25519ORDER'')))) = (400, ''BadEd25519Order'') \<and>
   (http (mapProgramError (OtherValue (js ''e 6016''))),
    code (mapProgramError (OtherValue (js ''e 6016'')))) = (400, ''BadDomainSeparation'')"
proof -
  have a: "token_occurs ''BadEd25519Order'' (js ''a BADED25519ORDER'')"
    unfolding token_occurs_def
    by (rule exI [of _ "js ''a ''"], rule exI [of _ "js ''BADED25519ORDER''"], rule exI [of _ "[]"])
       (simp add: js_def same_letter_def)
  have r0: "row_occurs (js ''a BADED25519ORDER'') (error_table ! 0)"
    using a by (simp add: error_table_def)
  have r1: "row_occurs (js ''e 6016'') (error_table ! 1)"
    by (simp add: error_table_def token_occurs_iff js_def upper_ascii_def)
  have n1: "\<forall>j < 1. \<not> row_occurs (js ''e 6016'') (error_table ! j)"
    by (simp add: error_table_def token_occurs_iff js_def upper_ascii_def)
  have l: "0 < length error_table" "1 < length error_table" by (simp_all add: error_table_def)
  note t0 = mapProgramError_table [of "ErrorObject (js ''a BADED25519ORDER'')", THEN conjunct1,
      rule_format, of 0]
  note t1 = mapProgramError_table [of "OtherValue (js ''e 6016'')",
      THEN conjunct1, rule_format, of 1]
  have "(http (mapProgramError (ErrorObject (js ''a BADED25519ORDER''))),
         code (mapProgramError (ErrorObject (js ''a BADED25519ORDER'')))) = (400, ''BadEd25519Order'')"
    using t0 l(1) r0 by (simp add: error_table_def)
  moreover have "(http (mapProgramError (OtherValue (js ''e 6016''))),
    code (mapProgramError (OtherValue (js ''e 6016'')))) = (400, ''BadDomainSeparation'')"
    using t1 l(2) r1 n1 by (simp add: error_table_def)
  ultimately show ?thesis using a by blast
qed

end
